theory Spec2Isabelle
  imports Main
begin

section \<open>The statistics harness \<open>stats.py\<close>\<close>

text \<open>
  The script runs an external game \<open>num_runs\<close> times, cleans each captured output of
  ANSI escape sequences, scrapes it with three regular expressions, aggregates the
  results and writes a summary to the console and to \<open>stats_game_links.txt\<close>.

  The captured output is a \<open>string\<close>. Each regular expression of the script is
  embedded as a matcher that follows the backtracking order of Python's \<open>re\<close>: a
  sub-pattern yields the list of remainders it can leave, the preferred one first.
\<close>

subsection \<open>Matching at a position\<close>

text \<open>A literal piece of a pattern: the remainder after it, if the text starts with it.\<close>

fun lit :: "string \<Rightarrow> string \<Rightarrow> string option" where
  "lit [] s = Some s"
| "lit (p # ps) [] = None"
| "lit (p # ps) (c # s) = (if p = c then lit ps s else None)"

text \<open>\<open>[0-9]\<close>\<close>

definition digit :: "char \<Rightarrow> bool" where
  "digit c = (c \<in> set ''0123456789'')"

text \<open>\<open>[0-9]{1,2}\<close>, greedy: two digits are tried before one.\<close>

fun digits12 :: "string \<Rightarrow> string list" where
  "digits12 (a # b # s) =
     (if digit a then (if digit b then [s, b # s] else [b # s]) else [])"
| "digits12 [a] = (if digit a then [[]] else [])"
| "digits12 [] = []"

text \<open>\<open>(;[0-9]{1,2})?\<close>: the group is tried before the empty match.\<close>

fun semi_digits_opt :: "string \<Rightarrow> string list" where
  "semi_digits_opt (c # s) = (if c = CHR '';'' then digits12 s else []) @ [c # s]"
| "semi_digits_opt [] = [[]]"

text \<open>\<open>([0-9]{1,2}(;[0-9]{1,2})?)?\<close>\<close>

definition params_opt :: "string \<Rightarrow> string list" where
  "params_opt s = concat (map semi_digits_opt (digits12 s)) @ [s]"

text \<open>\<open>[mGK]\<close>\<close>

fun final_letter :: "string \<Rightarrow> string list" where
  "final_letter (c # s) = (if c \<in> set ''mGK'' then [s] else [])"
| "final_letter [] = []"

text \<open>
  The whole pattern \<open>\x1B\[([0-9]{1,2}(;[0-9]{1,2})?)?[mGK]\<close> at the start of the
  text: the remainder after the first successful alternative.
\<close>

definition ansi_at :: "string \<Rightarrow> string option" where
  "ansi_at s =
     (case lit [CHR 0x1B, CHR ''[''] s of
        None \<Rightarrow> None
      | Some t \<Rightarrow>
          (case concat (map final_letter (params_opt t)) of
             [] \<Rightarrow> None
           | r # _ \<Rightarrow> Some r))"

lemma digits12_shorter: "r \<in> set (digits12 s) \<Longrightarrow> length r < length s"
  by (induction s rule: digits12.induct) (auto split: if_splits)

lemma semi_digits_opt_le: "r \<in> set (semi_digits_opt s) \<Longrightarrow> length r \<le> length s"
  by (cases s) (auto split: if_splits dest: digits12_shorter)

lemma params_opt_le: "r \<in> set (params_opt s) \<Longrightarrow> length r \<le> length s"
  by (auto simp: params_opt_def dest!: digits12_shorter semi_digits_opt_le)

lemma final_letter_shorter: "r \<in> set (final_letter s) \<Longrightarrow> length r < length s"
  by (cases s) (auto split: if_splits)

lemma lit_length: "lit p s = Some t \<Longrightarrow> length s = length p + length t"
  by (induction p s rule: lit.induct) (auto split: if_splits)

lemma ansi_at_shorter:
  assumes "ansi_at s = Some r"
  shows "length r < length s"
proof -
  from assms obtain t q where t: "lit [CHR 0x1B, CHR ''[''] s = Some t"
    and q: "concat (map final_letter (params_opt t)) = r # q"
    by (auto simp: ansi_at_def split: option.splits list.splits)
  have "r \<in> set (r # q)" by simp
  then have r: "r \<in> set (concat (map final_letter (params_opt t)))"
    unfolding q[symmetric] .
  from r obtain u where "u \<in> set (params_opt t)" "r \<in> set (final_letter u)"
    by auto
  then have "length r < length t"
    using params_opt_le final_letter_shorter by fastforce
  with lit_length[OF t] show ?thesis by simp
qed

subsection \<open>Removing the escape codes\<close>

text \<open>
  \<open>re.sub(pattern, "", output)\<close>: scanning from the left, a match is dropped and the
  scan goes on behind it; where the pattern does not match, the character is kept.
  (A match of this pattern is never empty.)
\<close>

function strip_ansi :: "string \<Rightarrow> string" where
  "strip_ansi [] = []"
| "strip_ansi (c # s) =
     (case ansi_at (c # s) of
        Some r \<Rightarrow> strip_ansi r
      | None \<Rightarrow> c # strip_ansi s)"
  by pat_completeness auto
termination
  by (relation "measure length") (auto dest: ansi_at_shorter)

subsection \<open>Scraping the cleaned output\<close>

text \<open>
  \<open>re.findall\<close> with a literal pattern: the matches from left to right, the scan going
  on behind each match, so that the matches do not overlap. (With an empty pattern
  Python reports an empty match at every position.)
\<close>

function findall_lit :: "string \<Rightarrow> string \<Rightarrow> string list" where
  "findall_lit p s =
     (if p = [] then replicate (length s + 1) []
      else if s = [] then []
      else (case lit p s of
              Some r \<Rightarrow> p # findall_lit p r
            | None \<Rightarrow> findall_lit p (tl s)))"
  by pat_completeness auto
termination
  by (relation "measure (\<lambda>(p, s). length s)") (auto dest: lit_length)

declare findall_lit.simps [simp del]

definition delayed_phrase :: string where
  "delayed_phrase = ''Sent move within wrong world tick''"

definition count_delayed :: "string \<Rightarrow> nat" where
  "count_delayed output = length (findall_lit delayed_phrase output)"

text \<open>
  The classes \<open>\w\<close> and \<open>\s\<close> are tables of the Python interpreter, not of the script:
  they are a parameter of the model.
\<close>

record re_classes =
  word_char :: "char \<Rightarrow> bool"
  space_char :: "char \<Rightarrow> bool"

text \<open>
  \<open>Game result is in:\s(.+)\<close> at the start of the text, giving group 1. The dot
  matches every character but the newline, and \<open>.+\<close> is greedy with nothing behind it.
\<close>

definition link_at :: "re_classes \<Rightarrow> string \<Rightarrow> string option" where
  "link_at cls s =
     (case lit ''Game result is in:'' s of
        None \<Rightarrow> None
      | Some [] \<Rightarrow> None
      | Some (c # t) \<Rightarrow>
          if space_char cls c
          then (let g = takeWhile (\<lambda>x. x \<noteq> CHR 0x0A) t in if g = [] then None else Some g)
          else None)"

text \<open>\<open>The winner was (\w+)\<close> at the start of the text, giving group 1.\<close>

definition winner_at :: "re_classes \<Rightarrow> string \<Rightarrow> string option" where
  "winner_at cls s =
     (case lit ''The winner was '' s of
        None \<Rightarrow> None
      | Some t \<Rightarrow> (let g = takeWhile (word_char cls) t in if g = [] then None else Some g))"

text \<open>\<open>re.search\<close>: the match at the leftmost position that has one.\<close>

fun re_search :: "(string \<Rightarrow> 'a option) \<Rightarrow> string \<Rightarrow> 'a option" where
  "re_search m [] = m []"
| "re_search m (c # s) = (case m (c # s) of Some g \<Rightarrow> Some g | None \<Rightarrow> re_search m s)"

subsection \<open>The state of the script\<close>

datatype py_error = CalledProcessError | ZeroDivisionError | ValueError | IndexError

text \<open>
  A line on the console, in the order of the constructors: \<open>Run {i+1}/{num_runs}...\<close>,
  \<open>Winner: {winner_name}\<close>, the empty line, \<open>Results:\<close>, the win-rate line, the
  warning \<open>WARNING: Some games had a lot of delayed moves!\<close>, the printed list of
  indices, and the closing \<open>Game links can be found in stats_game_links.txt\<close>. The
  win-rate line \<open>{winner}: {count} wins ({count/num_runs*100:.2f}% win rate)\<close> is kept
  as its three arguments; \<open>rate_text\<close> below is the text of its rate.
\<close>

datatype line =
    RunLine nat nat
  | WinnerLine string
  | BlankLine
  | ResultsLine
  | RateLine string int nat
  | WarningLine
  | IndexLine "nat list"
  | LinksNotice

text \<open>
  \<open>winners\<close> is the dictionary, in insertion order. \<open>links_file\<close> is the content of
  \<open>stats_game_links.txt\<close> as written by this run, \<open>None\<close> while the file has not been
  opened.
\<close>

record state =
  winners :: "(string \<times> int) list"
  winner_per_game :: "string list"
  delayed_moves_per_game :: "nat list"
  game_links :: "string list"
  console :: "line list"
  links_file :: "string list option"

definition init_state :: state where
  "init_state = \<lparr>winners = [], winner_per_game = [], delayed_moves_per_game = [],
     game_links = [], console = [], links_file = None\<rparr>"

text \<open>How a phase ends: normally, or with an uncaught exception.\<close>

datatype result = Done state | Raised py_error state

definition print :: "line list \<Rightarrow> state \<Rightarrow> state" where
  "print ls st = st\<lparr>console := console st @ ls\<rparr>"

text \<open>\<open>winners[winner_name] += 1\<close> on a \<open>defaultdict(int)\<close>: a missing key starts at 0.\<close>

fun dict_incr :: "string \<Rightarrow> (string \<times> int) list \<Rightarrow> (string \<times> int) list" where
  "dict_incr k [] = [(k, 0 + 1)]"
| "dict_incr k ((k', v) # m) =
     (if k = k' then (k', v + 1) # m else (k', v) # dict_incr k m)"

subsection \<open>One trial\<close>

text \<open>
  What \<open>subprocess.check_output\<close> meets: the exit status of the child and the text it
  wrote to standard output.
\<close>

record proc =
  returncode :: int
  stdout :: string

definition trial :: "re_classes \<Rightarrow> nat \<Rightarrow> nat \<Rightarrow> proc \<Rightarrow> state \<Rightarrow> result" where
  "trial cls num_runs i p st =
     (let st1 = print [RunLine (i + 1) num_runs] st in
      if returncode p \<noteq> 0 then Raised CalledProcessError st1
      else
        let output = strip_ansi (stdout p);
            count = count_delayed output;
            st2 = st1\<lparr>delayed_moves_per_game := delayed_moves_per_game st1 @ [count]\<rparr>;
            st3 = (case re_search (link_at cls) output of
                     Some l \<Rightarrow> st2\<lparr>game_links := game_links st2 @ [l]\<rparr>
                   | None \<Rightarrow> st2);
            st4 = (case re_search (winner_at cls) output of
                     Some winner_name \<Rightarrow>
                       (print [WinnerLine winner_name]
                          (st3\<lparr>winner_per_game := winner_per_game st3 @ [winner_name]\<rparr>))
                         \<lparr>winners := dict_incr winner_name (winners st3)\<rparr>
                   | None \<Rightarrow> st3)
        in Done st4)"

text \<open>\<open>for i in range(num_runs)\<close>, over the results of the successive invocations.\<close>

fun run_trials :: "re_classes \<Rightarrow> nat \<Rightarrow> nat \<Rightarrow> proc list \<Rightarrow> state \<Rightarrow> result" where
  "run_trials cls num_runs i [] st = Done st"
| "run_trials cls num_runs i (p # ps) st =
     (case trial cls num_runs i p st of
        Done st' \<Rightarrow> run_trials cls num_runs (i + 1) ps st'
      | Raised e st' \<Rightarrow> Raised e st')"

subsection \<open>The summary\<close>

text \<open>\<open>max\<close> of a list raises \<open>ValueError\<close> on the empty list.\<close>

fun py_max :: "nat list \<Rightarrow> py_error + nat" where
  "py_max [] = Inl ValueError"
| "py_max (x # xs) = Inr (fold max xs x)"

text \<open>\<open>[i for i, x in enumerate(delayed_moves_per_game) if x > 10]\<close>\<close>

definition delayed_indices :: "nat list \<Rightarrow> nat list" where
  "delayed_indices ds = map fst (filter (\<lambda>(i, x). x > 10) (enumerate 0 ds))"

text \<open>
  The loop over \<open>winners.items()\<close>. Its body prints the win rate, counts the games
  with a delay (a value that is not used) and checks the largest delay.
\<close>

fun summary_loop :: "nat \<Rightarrow> (string \<times> int) list \<Rightarrow> state \<Rightarrow> result" where
  "summary_loop num_runs [] st = Done st"
| "summary_loop num_runs ((winner, count) # items) st =
     (if num_runs = 0 then Raised ZeroDivisionError st
      else
        let st1 = print [RateLine winner count num_runs] st;
            count_non_zero = length (filter (\<lambda>x. x > 0) (delayed_moves_per_game st1))
        in case py_max (delayed_moves_per_game st1) of
             Inl e \<Rightarrow> Raised e st1
           | Inr m \<Rightarrow>
               summary_loop num_runs items
                 (if m > 10
                  then print [WarningLine, IndexLine (delayed_indices (delayed_moves_per_game st1))] st1
                  else st1))"

subsection \<open>The file of game links\<close>

text \<open>\<open>str\<close> of a non-negative integer.\<close>

fun str_nat :: "nat \<Rightarrow> string" where
  "str_nat n =
     (if n < 10 then [''0123456789'' ! n]
      else str_nat (n div 10) @ [''0123456789'' ! (n mod 10)])"

declare str_nat.simps [simp del]

definition link_line :: "string \<Rightarrow> nat \<Rightarrow> string \<Rightarrow> string" where
  "link_line winner delayed_moves item =
     ''Winner: '' @ winner @ '', delayed_moves: '' @ str_nat delayed_moves
       @ '', link: '' @ item @ [CHR 0x0A]"

text \<open>
  \<open>for i, item in enumerate(game_links)\<close>: an index beyond the end of a list raises
  \<open>IndexError\<close>; what has been written until then stays in the file.
\<close>

fun write_loop :: "(nat \<times> string) list \<Rightarrow> state \<Rightarrow> result" where
  "write_loop [] st = Done st"
| "write_loop ((i, item) # rest) st =
     (if i \<ge> length (winner_per_game st) then Raised IndexError st
      else if i \<ge> length (delayed_moves_per_game st) then Raised IndexError st
      else
        let winner = winner_per_game st ! i;
            delayed_moves = delayed_moves_per_game st ! i
        in write_loop rest
             (st\<lparr>links_file := map_option (\<lambda>ls. ls @ [link_line winner delayed_moves item]) (links_file st)\<rparr>))"

subsection \<open>The printed win rate\<close>








subsection \<open>The whole script\<close>

definition and_then :: "result \<Rightarrow> (state \<Rightarrow> result) \<Rightarrow> result" where
  "and_then r f = (case r of Done st \<Rightarrow> f st | Raised e st \<Rightarrow> Raised e st)"

definition summary :: "nat \<Rightarrow> state \<Rightarrow> result" where
  "summary num_runs st =
     (let st1 = print [BlankLine, ResultsLine] st in summary_loop num_runs (winners st1) st1)"

definition write_links :: "state \<Rightarrow> result" where
  "write_links st =
     and_then (write_loop (enumerate 0 (game_links st)) (st\<lparr>links_file := Some []\<rparr>))
       (\<lambda>st'. Done (print [LinksNotice] st'))"

text \<open>
  \<open>procs\<close> gives the result of each invocation in turn, and \<open>num_runs\<close> is their
  number (the script sets \<open>num_runs = 4\<close>).
\<close>

definition harness :: "re_classes \<Rightarrow> proc list \<Rightarrow> result" where
  "harness cls procs =
     and_then (and_then (run_trials cls (length procs) 0 procs init_state)
                 (summary (length procs)))
       write_links"

subsection \<open>Notions used in the properties\<close>

text \<open>Every escape character of the text begins a sequence that the pattern matches.\<close>

fun esc_starts_sequence :: "string \<Rightarrow> bool" where
  "esc_starts_sequence [] = True"
| "esc_starts_sequence (c # s) =
     ((c = CHR 0x1B \<longrightarrow> ansi_at (c # s) \<noteq> None) \<and> esc_starts_sequence s)"

text \<open>
  The phrase occurs in the text at position \<open>i\<close>; the positions at which it occurs.
\<close>

definition occurs_at :: "string \<Rightarrow> string \<Rightarrow> nat \<Rightarrow> bool" where
  "occurs_at p s i = (i + length p \<le> length s \<and> take (length p) (drop i s) = p)"

definition occurrences :: "string \<Rightarrow> string \<Rightarrow> nat list" where
  "occurrences p s = filter (occurs_at p s) [0..<length s]"

text \<open>
  The two classes on ASCII characters, as Python has them there: \<open>\w\<close> is
  \<open>[a-zA-Z0-9_]\<close>, \<open>\s\<close> is the blank, \<open>\t \n \v \f \r\<close> and the four separators
  \<open>0x1C\<close> to \<open>0x1F\<close>. It instantiates the parameter in the examples.
\<close>

definition ascii_classes :: re_classes where
  "ascii_classes =
     \<lparr>word_char = (\<lambda>c. c \<in> set ''abcdefghijklmnopqrstuvwxyzABCDEFGHIJKLMNOPQRSTUVWXYZ0123456789_''),
      space_char = (\<lambda>c. c \<in> set [CHR '' '', CHR 0x09, CHR 0x0A, CHR 0x0B, CHR 0x0C, CHR 0x0D,
                                     CHR 0x1C, CHR 0x1D, CHR 0x1E, CHR 0x1F])\<rparr>"

text \<open>An output with two delayed moves, a colour reset between them.\<close>

definition late_output :: string where
  "late_output = ''Sent move within wrong world tick'' @ [CHR 0x1B] @ ''[0m''
      @ ''Sent move within wrong world tick'' @ [CHR 0x0A]"

text \<open>What a trial takes from the output of an invocation: winner, link, delayed moves.\<close>

definition winner_of :: "re_classes \<Rightarrow> proc \<Rightarrow> string option" where
  "winner_of cls p = re_search (winner_at cls) (strip_ansi (stdout p))"

definition link_of :: "re_classes \<Rightarrow> proc \<Rightarrow> string option" where
  "link_of cls p = re_search (link_at cls) (strip_ansi (stdout p))"

definition delayed_of :: "proc \<Rightarrow> nat" where
  "delayed_of p = count_delayed (strip_ansi (stdout p))"

text \<open>The lines of the final report, as opposed to the progress lines of the trials.\<close>

fun report_line :: "line \<Rightarrow> bool" where
  "report_line (RunLine i n) = False"
| "report_line (WinnerLine w) = False"
| "report_line l = True"

text \<open>The line of the file for the link \<open>item\<close> at index \<open>i\<close>, paired by position.\<close>

definition paired_line :: "string list \<Rightarrow> nat list \<Rightarrow> nat \<times> string \<Rightarrow> string" where
  "paired_line W D = (\<lambda>(i, item). link_line (W ! i) (D ! i) item)"

text \<open>What one pass of the summary loop prints for a winner, given the delays \<open>ds\<close>.\<close>

definition rate_block :: "nat \<Rightarrow> nat list \<Rightarrow> string \<times> int \<Rightarrow> line list" where
  "rate_block n ds = (\<lambda>(w, c). RateLine w c n #
      (case py_max ds of
         Inr m \<Rightarrow> if m > 10 then [WarningLine, IndexLine (delayed_indices ds)] else []
       | Inl e \<Rightarrow> []))"

text \<open>Example runs: a successful invocation with a given output, and a failed one.\<close>

definition run_of :: "string \<Rightarrow> proc" where
  "run_of out = \<lparr>returncode = 0, stdout = out\<rparr>"

definition failed_run :: proc where
  "failed_run = \<lparr>returncode = 1, stdout = []\<rparr>"

text \<open>Example outputs of the game.\<close>

definition alice_output :: string where
  "alice_output = ''The winner was Alice'' @ [CHR 0x0A]
     @ ''Game result is in: http://x/1'' @ [CHR 0x0A]"

definition bob_output :: string where
  "bob_output = ''The winner was Bob'' @ [CHR 0x0A]
     @ ''Game result is in: http://x/2'' @ [CHR 0x0A]"

definition no_winner_output :: string where
  "no_winner_output = ''Game result is in: http://x/3'' @ [CHR 0x0A]"

definition silent_output :: string where
  "silent_output = ''npm start'' @ [CHR 0x0A]"

definition slow_output :: string where
  "slow_output = ''The winner was Alice'' @ [CHR 0x0A]
     @ ''Game result is in: http://x/1'' @ [CHR 0x0A]
     @ concat (replicate 11 (''Sent move within wrong world tick'' @ [CHR 0x0A]))"

definition slow_no_winner_output :: string where
  "slow_no_winner_output =
     concat (replicate 11 (''Sent move within wrong world tick'' @ [CHR 0x0A]))"

text \<open>Example sequences of four invocations, as \<open>num_runs = 4\<close> has them.\<close>

definition four_runs :: "proc list" where
  "four_runs = [run_of alice_output, run_of bob_output, run_of alice_output, run_of alice_output]"

definition runs_missing_winner :: "proc list" where
  "runs_missing_winner =
     [run_of alice_output, run_of no_winner_output, run_of bob_output, run_of alice_output]"

definition runs_with_failure :: "proc list" where
  "runs_with_failure = [run_of alice_output, failed_run, run_of bob_output, run_of alice_output]"

definition runs_slow_two_winners :: "proc list" where
  "runs_slow_two_winners =
     [run_of slow_output, run_of bob_output, run_of alice_output, run_of alice_output]"

definition runs_slow_no_winner :: "proc list" where
  "runs_slow_no_winner = replicate 4 (run_of slow_no_winner_output)"

text \<open>The state a phase ends in, and the number of warnings on its console.\<close>

definition state_of :: "result \<Rightarrow> state" where
  "state_of r = (case r of Done st \<Rightarrow> st | Raised e st \<Rightarrow> st)"

definition warnings_printed :: "result \<Rightarrow> nat" where
  "warnings_printed r = length (filter (\<lambda>l. l = WarningLine) (console (state_of r)))"


section \<open>Properties\<close>

subsection \<open>Stripping escape codes\<close>

lemma lit_append: "lit p s = Some t \<Longrightarrow> s = p @ t"
  by (induction p s rule: lit.induct) (auto split: if_splits)

lemma digits12_tail: "r \<in> set (digits12 s) \<Longrightarrow> \<exists>u. s = u @ r"
proof (induction s rule: digits12.induct)
  case (1 a b s)
  then consider "r = s" | "r = b # s" by (auto split: if_splits)
  then show ?case
  proof cases
    case 1
    then have "a # b # s = [a, b] @ r" by simp
    then show ?thesis ..
  next
    case 2
    then have "a # b # s = [a] @ r" by simp
    then show ?thesis ..
  qed
next
  case (2 a)
  then have "[a] = [a] @ r" by (auto split: if_splits)
  then show ?case ..
qed simp

lemma semi_digits_opt_tail:
  assumes "r \<in> set (semi_digits_opt s)"
  shows "\<exists>u. s = u @ r"
proof (cases s)
  case Nil
  with assms show ?thesis by simp
next
  case (Cons c t)
  with assms consider "r \<in> set (digits12 t)" | "r = s" by (auto split: if_splits)
  then show ?thesis
  proof cases
    case 1
    then obtain u where "t = u @ r" using digits12_tail by blast
    then have "s = (c # u) @ r" using Cons by simp
    then show ?thesis ..
  next
    case 2
    then have "s = [] @ r" by simp
    then show ?thesis ..
  qed
qed

lemma params_opt_tail:
  assumes "r \<in> set (params_opt s)"
  shows "\<exists>u. s = u @ r"
proof -
  from assms consider v where "v \<in> set (digits12 s)" "r \<in> set (semi_digits_opt v)" | "r = s"
    by (auto simp: params_opt_def)
  then show ?thesis
  proof cases
    case 1
    then obtain u w where "s = u @ v" "v = w @ r"
      using digits12_tail semi_digits_opt_tail by blast
    then have "s = (u @ w) @ r" by simp
    then show ?thesis ..
  next
    case 2
    then have "s = [] @ r" by simp
    then show ?thesis ..
  qed
qed

lemma final_letter_tail: "r \<in> set (final_letter s) \<Longrightarrow> \<exists>c. s = c # r"
  by (cases s) (auto split: if_splits)

lemma ansi_at_tail:
  assumes "ansi_at s = Some r"
  shows "\<exists>u. s = u @ r"
proof -
  from assms obtain t q where t: "lit [CHR 0x1B, CHR ''[''] s = Some t"
    and q: "concat (map final_letter (params_opt t)) = r # q"
    by (auto simp: ansi_at_def split: option.splits list.splits)
  have "r \<in> set (r # q)" by simp
  then have "r \<in> set (concat (map final_letter (params_opt t)))"
    unfolding q[symmetric] .
  then obtain v where v: "v \<in> set (params_opt t)" "r \<in> set (final_letter v)"
    by auto
  from v(1) obtain u where "t = u @ v" using params_opt_tail by blast
  moreover from v(2) obtain c where "v = c # r" using final_letter_tail by blast
  moreover note lit_append[OF t]
  ultimately have "s = ([CHR 0x1B, CHR ''[''] @ u @ [c]) @ r" by simp
  then show ?thesis ..
qed

lemma ansi_at_starts_esc: "ansi_at (c # s) = Some r \<Longrightarrow> c = CHR 0x1B"
  by (auto simp: ansi_at_def split: option.splits if_splits)

lemma esc_starts_sequence_tail: "esc_starts_sequence (u @ r) \<Longrightarrow> esc_starts_sequence r"
  by (induction u) auto

lemma strip_ansi_no_esc: "esc_starts_sequence s \<Longrightarrow> CHR 0x1B \<notin> set (strip_ansi s)"
proof (induction s rule: strip_ansi.induct)
  case 1
  then show ?case by simp
next
  case (2 c s)
  show ?case
  proof (cases "ansi_at (c # s)")
    case None
    with 2 show ?thesis by auto
  next
    case (Some r)
    then obtain u where "c # s = u @ r" using ansi_at_tail by blast
    with "2.prems" have "esc_starts_sequence r" using esc_starts_sequence_tail by metis
    with 2 Some show ?thesis by simp
  qed
qed

lemma strip_ansi_id: "CHR 0x1B \<notin> set s \<Longrightarrow> strip_ansi s = s"
proof (induction s)
  case (Cons c s)
  then have "ansi_at (c # s) = None"
    using ansi_at_starts_esc by (cases "ansi_at (c # s)") auto
  with Cons show ?case by simp
qed simp

text \<open>
  C1 (as the code has it). One pass of the substitution can leave a new escape
  sequence behind, made of the characters around a removed one, so stripping twice
  is not the same as stripping once in general. It is the same for every text in
  which each escape character begins a sequence matching the pattern: the stripped
  text then holds no escape character, and a second pass changes nothing.
\<close>

theorem strip_ansi_idempotent:
  "esc_starts_sequence s \<Longrightarrow> strip_ansi (strip_ansi s) = strip_ansi s"
  by (rule strip_ansi_id) (rule strip_ansi_no_esc)

theorem strip_ansi_idempotent_witness:
  "esc_starts_sequence ([CHR 0x1B] @ ''[31;1mred'' @ [CHR 0x1B] @ ''[0m ok'')
   \<and> strip_ansi (strip_ansi ([CHR 0x1B] @ ''[31;1mred'' @ [CHR 0x1B] @ ''[0m ok''))
       = strip_ansi ([CHR 0x1B] @ ''[31;1mred'' @ [CHR 0x1B] @ ''[0m ok'')
   \<and> strip_ansi ([CHR 0x1B] @ ''[31;1mred'' @ [CHR 0x1B] @ ''[0m ok'') = ''red ok''"
proof -
  have h: "esc_starts_sequence ([CHR 0x1B] @ ''[31;1mred'' @ [CHR 0x1B] @ ''[0m ok'')"
    by (simp add: ansi_at_def params_opt_def digit_def)
  have v: "strip_ansi ([CHR 0x1B] @ ''[31;1mred'' @ [CHR 0x1B] @ ''[0m ok'') = ''red ok''"
    by (simp add: ansi_at_def params_opt_def digit_def)
  from h strip_ansi_idempotent[OF h] v show ?thesis by blast
qed

text \<open>
  The text \<open>ESC ESC [ m [ m\<close>: the first pass removes the inner \<open>ESC [ m\<close> and leaves
  \<open>ESC [ m\<close>, which the second pass removes.
\<close>

theorem strip_ansi_not_idempotent:
  "strip_ansi (strip_ansi [CHR 0x1B, CHR 0x1B, CHR ''['', CHR ''m'', CHR ''['', CHR ''m''])
     \<noteq> strip_ansi [CHR 0x1B, CHR 0x1B, CHR ''['', CHR ''m'', CHR ''['', CHR ''m'']"
  by (simp add: ansi_at_def params_opt_def digit_def)

subsection \<open>Counting the delayed moves\<close>

lemma lit_Some_iff: "(lit p s = Some r) = (s = p @ r)"
  by (induction p s rule: lit.induct) auto

lemma occurs_at_0: "occurs_at p s 0 = (lit p s \<noteq> None)"
proof
  assume "occurs_at p s 0"
  then have "s = p @ drop (length p) s"
    by (metis occurs_at_def append_take_drop_id drop0)
  then have "lit p s = Some (drop (length p) s)" by (simp only: lit_Some_iff)
  then show "lit p s \<noteq> None" by simp
next
  assume "lit p s \<noteq> None"
  then obtain r where "s = p @ r" by (auto simp: lit_Some_iff)
  then show "occurs_at p s 0" by (simp add: occurs_at_def)
qed

lemma occurs_at_Suc: "occurs_at p (c # s) (Suc i) = occurs_at p s i"
  by (simp add: occurs_at_def)

lemma occurrences_Cons:
  "length (occurrences p (c # s)) =
     (if lit p (c # s) \<noteq> None then 1 else 0) + length (occurrences p s)"
proof -
  have "[0..<length (c # s)] = 0 # map Suc [0..<length s]"
    by (simp add: upt_conv_Cons map_Suc_upt del: upt_Suc)
  then have "occurrences p (c # s) =
      (if occurs_at p (c # s) 0 then [0] else []) @ map Suc (occurrences p s)"
    by (simp add: occurrences_def filter_map comp_def occurs_at_Suc)
  then show ?thesis by (simp add: occurs_at_0)
qed

lemma occurrences_skip:
  "a \<notin> set u \<Longrightarrow> length (occurrences (a # q) (u @ r)) = length (occurrences (a # q) r)"
proof (induction u)
  case (Cons c u)
  then have "lit (a # q) ((c # u) @ r) = None" by auto
  with Cons show ?case by (simp add: occurrences_Cons)
qed simp

lemma findall_lit_count:
  assumes "a \<notin> set q"
  shows "length (findall_lit (a # q) s) = length (occurrences (a # q) s)"
proof (induction "a # q" s rule: findall_lit.induct)
  case (1 s)
  show ?case
  proof (cases s)
    case Nil
    then show ?thesis by (simp add: findall_lit.simps[of "a # q" "[]"] occurrences_def)
  next
    case (Cons c t)
    show ?thesis
    proof (cases "lit (a # q) s")
      case None
      have "findall_lit (a # q) s = findall_lit (a # q) (tl s)"
        using None Cons by (subst findall_lit.simps) simp
      also have "length \<dots> = length (occurrences (a # q) (tl s))"
        using 1 None Cons by simp
      also have "\<dots> = length (occurrences (a # q) s)"
        using None Cons by (simp add: occurrences_Cons)
      finally show ?thesis .
    next
      case (Some r)
      then have s: "s = a # (q @ r)" by (simp add: lit_Some_iff)
      have "findall_lit (a # q) s = (a # q) # findall_lit (a # q) r"
        using Some Cons by (subst findall_lit.simps) simp
      then have "length (findall_lit (a # q) s) = 1 + length (occurrences (a # q) r)"
        using 1 Some Cons by simp
      also have "\<dots> = 1 + length (occurrences (a # q) (q @ r))"
        using assms by (simp add: occurrences_skip)
      also have "\<dots> = length (occurrences (a # q) s)"
        using Some Cons s by (simp add: occurrences_Cons)
      finally show ?thesis .
    qed
  qed
qed

lemma occurs_at_nth:
  assumes "occurs_at p s i" "k < length p"
  shows "s ! (i + k) = p ! k"
proof -
  from assms have le: "i + length p \<le> length s" and tk: "take (length p) (drop i s) = p"
    by (simp_all add: occurs_at_def)
  have "p ! k = take (length p) (drop i s) ! k" by (simp only: tk)
  also have "\<dots> = drop i s ! k" using assms(2) by (rule nth_take)
  also have "\<dots> = s ! (i + k)" using le by (simp add: nth_drop)
  finally show ?thesis by simp
qed

lemma occurrences_apart:
  assumes "a \<notin> set q" "occurs_at (a # q) s i" "occurs_at (a # q) s j" "i < j"
  shows "i + length (a # q) \<le> j"
proof (rule ccontr)
  assume n: "\<not> i + length (a # q) \<le> j"
  define k where "k = j - Suc i"
  from n \<open>i < j\<close> have k: "j = i + Suc k" "k < length q"
    by (simp_all add: k_def)
  from occurs_at_nth[OF assms(2), of "Suc k"] k have "s ! j = q ! k" by simp
  moreover from occurs_at_nth[OF assms(3), of 0] have "s ! j = a" by simp
  ultimately have "a \<in> set q" using k(2) nth_mem[of k q] by simp
  with assms(1) show False by simp
qed

lemma delayed_phrase_Cons:
  "delayed_phrase = CHR ''S'' # ''ent move within wrong world tick''"
  "CHR ''S'' \<notin> set ''ent move within wrong world tick''"
  by (simp_all add: delayed_phrase_def)


lemma trial_Done:
  "returncode p = 0 \<Longrightarrow> \<exists>st'. trial cls n i p st = Done st'
      \<and> delayed_moves_per_game st' = delayed_moves_per_game st @ [count_delayed (strip_ansi (stdout p))]"
  by (simp add: trial_def Let_def print_def split: option.splits)

lemma count_delayed_occurrences: "count_delayed t = length (occurrences delayed_phrase t)"
  unfolding count_delayed_def delayed_phrase_Cons(1)
  by (rule findall_lit_count) (rule delayed_phrase_Cons(2))

text \<open>
  C6. When the process succeeds, the count appended for the trial is the number of
  positions at which the phrase \<open>Sent move within wrong world tick\<close> occurs in the
  cleaned output (so 0 when it does not occur), and two occurrences never overlap:
  they start at least the length of the phrase apart.
\<close>

theorem delayed_count_recorded:
  "returncode p = 0 \<Longrightarrow>
     (\<exists>st'. trial cls n i p st = Done st'
        \<and> delayed_moves_per_game st'
            = delayed_moves_per_game st @ [length (occurrences delayed_phrase (strip_ansi (stdout p)))])
     \<and> (\<forall>j k. occurs_at delayed_phrase (strip_ansi (stdout p)) j
            \<and> occurs_at delayed_phrase (strip_ansi (stdout p)) k \<and> j < k
          \<longrightarrow> j + length delayed_phrase \<le> k)"
proof (intro conjI allI impI)
  assume "returncode p = 0"
  then show "\<exists>st'. trial cls n i p st = Done st'
        \<and> delayed_moves_per_game st'
            = delayed_moves_per_game st @ [length (occurrences delayed_phrase (strip_ansi (stdout p)))]"
    using trial_Done[of p cls n i st] by (simp add: count_delayed_occurrences)
next
  fix j k
  assume "occurs_at delayed_phrase (strip_ansi (stdout p)) j
            \<and> occurs_at delayed_phrase (strip_ansi (stdout p)) k \<and> j < k"
  then show "j + length delayed_phrase \<le> k"
    unfolding delayed_phrase_Cons(1)
    using occurrences_apart[OF delayed_phrase_Cons(2)] by blast
qed

lemma late_output_stripped: "strip_ansi late_output = ''Sent move within wrong world tickSent move within wrong world tick'' @ [CHR 0x0A]"
  by (simp add: late_output_def ansi_at_def params_opt_def digit_def)

lemma late_output_count: "length (occurrences delayed_phrase (strip_ansi late_output)) = 2"
  unfolding late_output_stripped by code_simp

lemma late_output_positions: "occurs_at delayed_phrase (strip_ansi late_output) 0" "occurs_at delayed_phrase (strip_ansi late_output) 33"
  unfolding late_output_stripped by code_simp+

theorem delayed_count_recorded_witness:
  "returncode \<lparr>returncode = 0, stdout = late_output\<rparr> = 0
   \<and> (\<exists>st'. trial ascii_classes 4 0 \<lparr>returncode = 0, stdout = late_output\<rparr> init_state = Done st'
         \<and> delayed_moves_per_game st' = [2])
   \<and> occurs_at delayed_phrase (strip_ansi late_output) 0
   \<and> occurs_at delayed_phrase (strip_ansi late_output) 33
   \<and> 0 + length delayed_phrase \<le> (33::nat)"
proof -
  have h: "returncode \<lparr>returncode = 0, stdout = late_output\<rparr> = 0" by simp
  note t = delayed_count_recorded[OF h, of ascii_classes 4 0 init_state]
  from t have "\<exists>st'. trial ascii_classes 4 0 \<lparr>returncode = 0, stdout = late_output\<rparr> init_state = Done st'
         \<and> delayed_moves_per_game st' = [2]"
    by (simp add: late_output_count init_state_def)
  moreover from t late_output_positions have "0 + length delayed_phrase \<le> (33::nat)"
    by (simp add: delayed_phrase_def)
  ultimately show ?thesis using h late_output_positions by blast
qed

subsection \<open>The phases of the script\<close>

lemma trial_fields:
  assumes "returncode p = 0"
  shows "\<exists>st'. trial cls n i p st = Done st'
    \<and> delayed_moves_per_game st' = delayed_moves_per_game st @ [delayed_of p]
    \<and> game_links st' = game_links st @ (case link_of cls p of Some l \<Rightarrow> [l] | None \<Rightarrow> [])
    \<and> winner_per_game st' = winner_per_game st @ (case winner_of cls p of Some w \<Rightarrow> [w] | None \<Rightarrow> [])
    \<and> winners st' = (case winner_of cls p of Some w \<Rightarrow> dict_incr w (winners st) | None \<Rightarrow> winners st)
    \<and> console st' = console st @ RunLine (i + 1) n # (case winner_of cls p of Some w \<Rightarrow> [WinnerLine w] | None \<Rightarrow> [])
    \<and> links_file st' = links_file st"
  using assms
  by (simp add: trial_def Let_def print_def winner_of_def link_of_def delayed_of_def
      split: option.splits)

lemma trial_failed:
  "returncode p \<noteq> 0 \<Longrightarrow> trial cls n i p st = Raised CalledProcessError (print [RunLine (i + 1) n] st)"
  by (simp add: trial_def Let_def)

lemma sum_dict_incr: "sum_list (map snd (dict_incr k m)) = sum_list (map snd m) + 1"
  by (induction k m rule: dict_incr.induct) auto

lemma dict_incr_not_Nil: "dict_incr k m \<noteq> []"
  by (cases m) (auto split: if_splits)

lemma run_trials_fields:
  assumes "\<forall>p \<in> set ps. returncode p = 0"
  shows "\<exists>st'. run_trials cls n i ps st = Done st'
    \<and> delayed_moves_per_game st' = delayed_moves_per_game st @ map delayed_of ps
    \<and> game_links st' = game_links st @ List.map_filter (link_of cls) ps
    \<and> winner_per_game st' = winner_per_game st @ List.map_filter (winner_of cls) ps
    \<and> sum_list (map snd (winners st'))
        = sum_list (map snd (winners st)) + int (length (List.map_filter (winner_of cls) ps))
    \<and> (winners st' = [] \<longrightarrow> winners st = [] \<and> List.map_filter (winner_of cls) ps = [])
    \<and> (winners st = [] \<and> List.map_filter (winner_of cls) ps = [] \<longrightarrow> winners st' = [])
    \<and> (\<forall>l \<in> set (console st'). report_line l \<longrightarrow> l \<in> set (console st))
    \<and> links_file st' = links_file st"
  using assms
proof (induction ps arbitrary: i st)
  case Nil
  then show ?case by simp
next
  case (Cons p ps)
  then have ok: "returncode p = 0" and rest: "\<forall>p \<in> set ps. returncode p = 0" by simp_all
  from trial_fields[OF ok, of cls n i st] obtain st1 where
    t: "trial cls n i p st = Done st1"
    and d: "delayed_moves_per_game st1 = delayed_moves_per_game st @ [delayed_of p]"
    and g: "game_links st1 = game_links st @ (case link_of cls p of Some l \<Rightarrow> [l] | None \<Rightarrow> [])"
    and w: "winner_per_game st1 = winner_per_game st @ (case winner_of cls p of Some w \<Rightarrow> [w] | None \<Rightarrow> [])"
    and ws: "winners st1 = (case winner_of cls p of Some w \<Rightarrow> dict_incr w (winners st) | None \<Rightarrow> winners st)"
    and c: "console st1 = console st @ RunLine (i + 1) n # (case winner_of cls p of Some w \<Rightarrow> [WinnerLine w] | None \<Rightarrow> [])"
    and f: "links_file st1 = links_file st"
    by blast
  from Cons.IH[OF rest, of "i + 1" st1] obtain st' where
    r: "run_trials cls n (i + 1) ps st1 = Done st'"
    and d': "delayed_moves_per_game st' = delayed_moves_per_game st1 @ map delayed_of ps"
    and g': "game_links st' = game_links st1 @ List.map_filter (link_of cls) ps"
    and w': "winner_per_game st' = winner_per_game st1 @ List.map_filter (winner_of cls) ps"
    and s': "sum_list (map snd (winners st'))
        = sum_list (map snd (winners st1)) + int (length (List.map_filter (winner_of cls) ps))"
    and e1: "winners st' = [] \<longrightarrow> winners st1 = [] \<and> List.map_filter (winner_of cls) ps = []"
    and e2: "winners st1 = [] \<and> List.map_filter (winner_of cls) ps = [] \<longrightarrow> winners st' = []"
    and c': "\<forall>l \<in> set (console st'). report_line l \<longrightarrow> l \<in> set (console st1)"
    and f': "links_file st' = links_file st1"
    by blast
  have "run_trials cls n i (p # ps) st = Done st'" using t r by simp
  moreover have "delayed_moves_per_game st' = delayed_moves_per_game st @ map delayed_of (p # ps)"
    using d d' by simp
  moreover have "game_links st' = game_links st @ List.map_filter (link_of cls) (p # ps)"
    using g g' by (simp add: split: option.splits)
  moreover have "winner_per_game st' = winner_per_game st @ List.map_filter (winner_of cls) (p # ps)"
    using w w' by (simp add: split: option.splits)
  moreover have "sum_list (map snd (winners st'))
        = sum_list (map snd (winners st)) + int (length (List.map_filter (winner_of cls) (p # ps)))"
    using s' ws by (simp add: sum_dict_incr split: option.splits)
  moreover have "winners st' = [] \<longrightarrow> winners st = [] \<and> List.map_filter (winner_of cls) (p # ps) = []"
    using e1 ws by (simp add: dict_incr_not_Nil split: option.splits)
  moreover have "winners st = [] \<and> List.map_filter (winner_of cls) (p # ps) = [] \<longrightarrow> winners st' = []"
    using e2 ws by (simp add: split: option.splits)
  moreover have "\<forall>l \<in> set (console st'). report_line l \<longrightarrow> l \<in> set (console st)"
    using c' c by (auto split: option.splits)
  moreover have "links_file st' = links_file st" using f f' by simp
  ultimately show ?case by blast
qed

lemma run_trials_append:
  "run_trials cls n i (ps @ qs) st =
     (case run_trials cls n i ps st of
        Done st' \<Rightarrow> run_trials cls n (i + length ps) qs st'
      | Raised e st' \<Rightarrow> Raised e st')"
proof (induction ps arbitrary: i st)
  case (Cons p ps)
  then show ?case
    by (cases "trial cls n i p st") (simp_all cong: result.case_cong)
qed simp

lemma print_print: "print a (print b st) = print (b @ a) st"
  by (simp add: print_def)

lemma print_Nil: "print [] st = st"
  by (simp add: print_def)

lemma summary_loop_exact:
  assumes "n > 0" "delayed_moves_per_game st = d # ds"
  shows "summary_loop n items st = Done (print (concat (map (rate_block n (d # ds)) items)) st)"
  using assms(2)
proof (induction items arbitrary: st)
  case Nil
  then show ?case by (simp add: print_Nil)
next
  case (Cons wc items)
  obtain w c where wc: "wc = (w, c)" by (cases wc)
  let ?st1 = "print [RateLine w c n] st"
  let ?st2 = "if fold max ds d > 10
              then print [WarningLine, IndexLine (delayed_indices (d # ds))] ?st1 else ?st1"
  have d1: "delayed_moves_per_game ?st1 = d # ds" using Cons.prems by (simp add: print_def)
  then have d2: "delayed_moves_per_game ?st2 = d # ds" by (simp add: print_def)
  have "summary_loop n (wc # items) st = summary_loop n items ?st2"
    using assms(1) d1 by (simp add: wc Let_def)
  also have "\<dots> = Done (print (concat (map (rate_block n (d # ds)) items)) ?st2)"
    by (rule Cons.IH[OF d2])
  also have "\<dots> = Done (print (concat (map (rate_block n (d # ds)) (wc # items))) st)"
    by (simp add: wc rate_block_def print_print)
  finally show ?case .
qed

lemma write_loop_ok:
  assumes "links_file st = Some f"
    and "k + length ls \<le> length (winner_per_game st)"
    and "k + length ls \<le> length (delayed_moves_per_game st)"
  shows "write_loop (enumerate k ls) st =
     Done (st\<lparr>links_file := Some (f @ map (paired_line (winner_per_game st) (delayed_moves_per_game st))
                                         (enumerate k ls))\<rparr>)"
  using assms
proof (induction ls arbitrary: k st f)
  case Nil
  then show ?case by simp
next
  case (Cons item ls)
  let ?l = "link_line (winner_per_game st ! k) (delayed_moves_per_game st ! k) item"
  let ?st = "st\<lparr>links_file := Some (f @ [?l])\<rparr>"
  have "write_loop (enumerate k (item # ls)) st = write_loop (enumerate (Suc k) ls) ?st"
    using Cons.prems by (simp add: Let_def)
  also have "\<dots> = Done (?st\<lparr>links_file := Some ((f @ [?l]) @
        map (paired_line (winner_per_game ?st) (delayed_moves_per_game ?st)) (enumerate (Suc k) ls))\<rparr>)"
    using Cons.prems by (intro Cons.IH) simp_all
  finally show ?case by (simp add: paired_line_def)
qed

lemma write_loop_raises:
  assumes "links_file st = Some f"
    and "k \<le> length (winner_per_game st)"
    and "length (winner_per_game st) \<le> length (delayed_moves_per_game st)"
    and "length (winner_per_game st) < k + length ls"
  shows "write_loop (enumerate k ls) st =
     Raised IndexError
       (st\<lparr>links_file := Some (f @ map (paired_line (winner_per_game st) (delayed_moves_per_game st))
                                    (take (length (winner_per_game st) - k) (enumerate k ls)))\<rparr>)"
  using assms
proof (induction ls arbitrary: k st f)
  case Nil
  then show ?case by simp
next
  case (Cons item ls)
  show ?case
  proof (cases "k = length (winner_per_game st)")
    case True
    with Cons.prems show ?thesis by simp
  next
    case False
    with Cons.prems have lt: "k < length (winner_per_game st)" by simp
    let ?l = "link_line (winner_per_game st ! k) (delayed_moves_per_game st ! k) item"
    let ?st = "st\<lparr>links_file := Some (f @ [?l])\<rparr>"
    have "write_loop (enumerate k (item # ls)) st = write_loop (enumerate (Suc k) ls) ?st"
      using Cons.prems lt by (simp add: Let_def)
    also have "\<dots> = Raised IndexError (?st\<lparr>links_file := Some ((f @ [?l]) @
        map (paired_line (winner_per_game ?st) (delayed_moves_per_game ?st))
          (take (length (winner_per_game ?st) - Suc k) (enumerate (Suc k) ls)))\<rparr>)"
      using Cons.prems lt by (intro Cons.IH) simp_all
    finally show ?thesis using lt
      by (simp add: paired_line_def take_Cons' Suc_diff_Suc)
  qed
qed

lemma length_map_filter_le: "length (List.map_filter f xs) \<le> length xs"
  by (induction xs) (auto split: option.splits intro: le_SucI)

lemma map_filter_all_Some:
  "\<forall>x \<in> set xs. f x \<noteq> None \<Longrightarrow> length (List.map_filter f xs) = length xs"
  by (induction xs) (auto split: option.splits)

lemma summary_Done:
  assumes "winners st = [] \<or> (0 < n \<and> delayed_moves_per_game st \<noteq> [])"
  shows "summary n st = Done (print (BlankLine # ResultsLine #
            concat (map (rate_block n (delayed_moves_per_game st)) (winners st))) st)"
proof (cases "winners st")
  case Nil
  then show ?thesis by (simp add: summary_def Let_def print_def)
next
  case (Cons wc ws)
  with assms obtain d ds where n: "0 < n" and d: "delayed_moves_per_game st = d # ds"
    by (cases "delayed_moves_per_game st") auto
  let ?st1 = "print [BlankLine, ResultsLine] st"
  have d1: "delayed_moves_per_game ?st1 = d # ds" using d by (simp add: print_def)
  have w1: "winners ?st1 = winners st" by (simp add: print_def)
  have "summary n st = summary_loop n (winners st) ?st1"
    by (simp add: summary_def Let_def w1)
  also have "\<dots> = Done (print (concat (map (rate_block n (d # ds)) (winners st))) ?st1)"
    by (rule summary_loop_exact[OF n d1])
  finally show ?thesis by (simp add: print_print d)
qed

lemma harness_all_succeed:
  assumes "\<forall>p \<in> set procs. returncode p = 0"
  shows "\<exists>st0 st. run_trials cls (length procs) 0 procs init_state = Done st0
    \<and> st = print (BlankLine # ResultsLine #
            concat (map (rate_block (length procs) (delayed_moves_per_game st0)) (winners st0))) st0
    \<and> harness cls procs = write_links st
    \<and> delayed_moves_per_game st0 = map delayed_of procs
    \<and> game_links st0 = List.map_filter (link_of cls) procs
    \<and> winner_per_game st0 = List.map_filter (winner_of cls) procs
    \<and> sum_list (map snd (winners st0)) = int (length (List.map_filter (winner_of cls) procs))
    \<and> (winners st0 = []) = (List.map_filter (winner_of cls) procs = [])
    \<and> (\<forall>l \<in> set (console st0). \<not> report_line l)
    \<and> links_file st0 = None"
proof -
  from run_trials_fields[OF assms, of cls "length procs" 0 init_state]
  obtain st0 where r: "run_trials cls (length procs) 0 procs init_state = Done st0"
    and d: "delayed_moves_per_game st0 = map delayed_of procs"
    and g: "game_links st0 = List.map_filter (link_of cls) procs"
    and w: "winner_per_game st0 = List.map_filter (winner_of cls) procs"
    and s: "sum_list (map snd (winners st0)) = int (length (List.map_filter (winner_of cls) procs))"
    and e: "(winners st0 = []) = (List.map_filter (winner_of cls) procs = [])"
    and c: "\<forall>l \<in> set (console st0). \<not> report_line l"
    and f: "links_file st0 = None"
    by (auto simp: init_state_def)
  have "winners st0 = [] \<or> (0 < length procs \<and> delayed_moves_per_game st0 \<noteq> [])"
  proof (cases procs)
    case Nil
    with e show ?thesis by simp
  next
    case (Cons p ps)
    with d show ?thesis by simp
  qed
  then have "summary (length procs) st0 = Done (print (BlankLine # ResultsLine #
            concat (map (rate_block (length procs) (delayed_moves_per_game st0)) (winners st0))) st0)"
    by (rule summary_Done)
  with r have "harness cls procs = write_links (print (BlankLine # ResultsLine #
            concat (map (rate_block (length procs) (delayed_moves_per_game st0)) (winners st0))) st0)"
    by (simp add: harness_def and_then_def)
  with r d g w s e c f show ?thesis by blast
qed

lemma write_links_ok:
  assumes "length (game_links st) \<le> length (winner_per_game st)"
    and "length (game_links st) \<le> length (delayed_moves_per_game st)"
  shows "write_links st =
     Done (print [LinksNotice]
       (st\<lparr>links_file := Some (map (paired_line (winner_per_game st) (delayed_moves_per_game st))
                                  (enumerate 0 (game_links st)))\<rparr>))"
proof -
  let ?st = "st\<lparr>links_file := Some []\<rparr>"
  have "write_loop (enumerate 0 (game_links st)) ?st =
     Done (?st\<lparr>links_file := Some ([] @ map (paired_line (winner_per_game ?st) (delayed_moves_per_game ?st))
                                         (enumerate 0 (game_links st)))\<rparr>)"
    using assms by (intro write_loop_ok) simp_all
  then show ?thesis by (simp add: write_links_def and_then_def)
qed

lemma write_links_raises:
  assumes "length (winner_per_game st) < length (game_links st)"
    and "length (winner_per_game st) \<le> length (delayed_moves_per_game st)"
  shows "write_links st =
     Raised IndexError
       (st\<lparr>links_file := Some (map (paired_line (winner_per_game st) (delayed_moves_per_game st))
                                  (take (length (winner_per_game st)) (enumerate 0 (game_links st))))\<rparr>)"
proof -
  let ?st = "st\<lparr>links_file := Some []\<rparr>"
  have "write_loop (enumerate 0 (game_links st)) ?st =
     Raised IndexError (?st\<lparr>links_file := Some ([] @ map (paired_line (winner_per_game ?st) (delayed_moves_per_game ?st))
          (take (length (winner_per_game ?st) - 0) (enumerate 0 (game_links st))))\<rparr>)"
    using assms by (intro write_loop_raises) simp_all
  then show ?thesis by (simp add: write_links_def and_then_def)
qed

subsection \<open>The example runs\<close>

lemma winner_of_examples:
  "winner_of ascii_classes (run_of alice_output) = Some ''Alice''"
  "winner_of ascii_classes (run_of bob_output) = Some ''Bob''"
  "winner_of ascii_classes (run_of no_winner_output) = None"
  "winner_of ascii_classes (run_of silent_output) = None"
  by code_simp+

lemma link_of_examples:
  "link_of ascii_classes (run_of alice_output) = Some ''http://x/1''"
  "link_of ascii_classes (run_of bob_output) = Some ''http://x/2''"
  "link_of ascii_classes (run_of no_winner_output) = Some ''http://x/3''"
  "link_of ascii_classes (run_of silent_output) = None"
  by code_simp+

lemma delayed_of_examples:
  "delayed_of (run_of alice_output) = 0"
  "delayed_of (run_of bob_output) = 0"
  "delayed_of (run_of no_winner_output) = 0"
  "delayed_of (run_of silent_output) = 0"
  by code_simp+

lemma str_nat_0: "str_nat 0 = ''0''"
  by code_simp

lemma four_runs_eval:
  "List.map_filter (winner_of ascii_classes) four_runs = [''Alice'', ''Bob'', ''Alice'', ''Alice'']"
  "List.map_filter (link_of ascii_classes) four_runs
     = [''http://x/1'', ''http://x/2'', ''http://x/1'', ''http://x/1'']"
  "map delayed_of four_runs = [0, 0, 0, 0]"
  by (simp_all add: four_runs_def winner_of_examples link_of_examples delayed_of_examples)

lemma runs_missing_winner_eval:
  "List.map_filter (winner_of ascii_classes) runs_missing_winner = [''Alice'', ''Bob'', ''Alice'']"
  "List.map_filter (link_of ascii_classes) runs_missing_winner
     = [''http://x/1'', ''http://x/3'', ''http://x/2'', ''http://x/1'']"
  "map delayed_of runs_missing_winner = [0, 0, 0, 0]"
  by (simp_all add: runs_missing_winner_def winner_of_examples link_of_examples delayed_of_examples)

subsection \<open>The trials\<close>

text \<open>
  C8. A trial whose process succeeds raises no error. It always appends its
  delayed-move count. When the winner pattern has no match it adds nothing to the
  winner list nor to the winner counts; when the link pattern has no match it adds
  nothing to the link list. A trial with a link and no winner therefore makes the link
  list one entry longer and leaves the winner list as it is, so that from then on a
  link and the winner at the same index belong to different trials.
\<close>

theorem missing_match_skipped:
  assumes "returncode p = 0"
  shows "\<exists>st'. trial cls n i p st = Done st'
    \<and> delayed_moves_per_game st' = delayed_moves_per_game st @ [delayed_of p]
    \<and> (winner_of cls p = None \<longrightarrow>
          winner_per_game st' = winner_per_game st \<and> winners st' = winners st)
    \<and> (link_of cls p = None \<longrightarrow> game_links st' = game_links st)
    \<and> (\<forall>l. winner_of cls p = None \<and> link_of cls p = Some l \<longrightarrow>
          game_links st' = game_links st @ [l]
          \<and> length (game_links st') = Suc (length (game_links st))
          \<and> length (winner_per_game st') = length (winner_per_game st))"
  using trial_fields[OF assms, of cls n i st] by auto

theorem missing_match_skipped_witness:
  "returncode (run_of no_winner_output) = 0
   \<and> winner_of ascii_classes (run_of no_winner_output) = None
   \<and> link_of ascii_classes (run_of no_winner_output) = Some ''http://x/3''
   \<and> (\<exists>st'. trial ascii_classes 4 1 (run_of no_winner_output) init_state = Done st'
          \<and> delayed_moves_per_game st' = [0] \<and> winner_per_game st' = [] \<and> winners st' = []
          \<and> game_links st' = [''http://x/3''])
   \<and> returncode (run_of silent_output) = 0
   \<and> link_of ascii_classes (run_of silent_output) = None
   \<and> (\<exists>st'. trial ascii_classes 4 1 (run_of silent_output) init_state = Done st'
          \<and> delayed_moves_per_game st' = [0] \<and> game_links st' = [])"
proof -
  have h: "returncode (run_of no_winner_output) = 0" "returncode (run_of silent_output) = 0"
    by (simp_all add: run_of_def)
  from missing_match_skipped[OF h(1), of ascii_classes 4 1 init_state]
  have a: "\<exists>st'. trial ascii_classes 4 1 (run_of no_winner_output) init_state = Done st'
          \<and> delayed_moves_per_game st' = [0] \<and> winner_per_game st' = [] \<and> winners st' = []
          \<and> game_links st' = [''http://x/3'']"
    by (auto simp: winner_of_examples link_of_examples delayed_of_examples init_state_def)
  from missing_match_skipped[OF h(2), of ascii_classes 4 1 init_state]
  have b: "\<exists>st'. trial ascii_classes 4 1 (run_of silent_output) init_state = Done st'
          \<and> delayed_moves_per_game st' = [0] \<and> game_links st' = []"
    by (auto simp: winner_of_examples link_of_examples delayed_of_examples init_state_def)
  from h a b show ?thesis by (simp add: winner_of_examples link_of_examples)
qed

text \<open>
  C4. When every one of the \<open>N \<ge> 1\<close> processes succeeds and every output has a match
  for the winner pattern, the counts of the winner dictionary sum to \<open>N\<close> after the
  trials, and the script ends normally with the same dictionary.
\<close>

theorem win_counts_sum:
  assumes "procs \<noteq> []"
    and "\<forall>p \<in> set procs. returncode p = 0 \<and> winner_of cls p \<noteq> None"
  shows "\<exists>st. run_trials cls (length procs) 0 procs init_state = Done st
           \<and> sum_list (map snd (winners st)) = int (length procs)
           \<and> (\<exists>st'. harness cls procs = Done st' \<and> winners st' = winners st)"
proof -
  from assms(2) have ok: "\<forall>p \<in> set procs. returncode p = 0"
    and win: "\<forall>p \<in> set procs. winner_of cls p \<noteq> None" by simp_all
  from harness_all_succeed[OF ok, of cls] obtain st0 st where
    r: "run_trials cls (length procs) 0 procs init_state = Done st0"
    and st: "st = print (BlankLine # ResultsLine #
            concat (map (rate_block (length procs) (delayed_moves_per_game st0)) (winners st0))) st0"
    and h: "harness cls procs = write_links st"
    and d: "delayed_moves_per_game st0 = map delayed_of procs"
    and g: "game_links st0 = List.map_filter (link_of cls) procs"
    and w: "winner_per_game st0 = List.map_filter (winner_of cls) procs"
    and s: "sum_list (map snd (winners st0)) = int (length (List.map_filter (winner_of cls) procs))"
    by blast
  have lw: "length (List.map_filter (winner_of cls) procs) = length procs"
    using win by (rule map_filter_all_Some)
  have "length (game_links st) \<le> length (winner_per_game st)"
    using st g w lw length_map_filter_le[of "link_of cls" procs] by (simp add: print_def)
  moreover have "length (game_links st) \<le> length (delayed_moves_per_game st)"
    using st g d length_map_filter_le[of "link_of cls" procs] by (simp add: print_def)
  ultimately have "write_links st = Done (print [LinksNotice]
       (st\<lparr>links_file := Some (map (paired_line (winner_per_game st) (delayed_moves_per_game st))
                                  (enumerate 0 (game_links st)))\<rparr>))"
    by (rule write_links_ok)
  with h st have "\<exists>st'. harness cls procs = Done st' \<and> winners st' = winners st0"
    by (simp add: print_def)
  with r s lw show ?thesis by auto
qed

theorem win_counts_sum_witness:
  "four_runs \<noteq> []
   \<and> list_all (\<lambda>p. returncode p = 0 \<and> winner_of ascii_classes p \<noteq> None) four_runs
   \<and> (\<exists>st. run_trials ascii_classes 4 0 four_runs init_state = Done st
          \<and> sum_list (map snd (winners st)) = 4
          \<and> (\<exists>st'. harness ascii_classes four_runs = Done st' \<and> winners st' = winners st))"
proof -
  have h1: "four_runs \<noteq> []" by (simp add: four_runs_def)
  have h2: "\<forall>p \<in> set four_runs. returncode p = 0 \<and> winner_of ascii_classes p \<noteq> None"
    by (simp add: four_runs_def winner_of_examples) (simp add: run_of_def)
  have n: "length four_runs = 4" by (simp add: four_runs_def)
  from win_counts_sum[OF h1 h2] h1 h2 show ?thesis
    unfolding n by (simp add: list_all_iff)
qed

text \<open>
  C9. When some process exits with a non-zero status, the script ends with
  \<open>CalledProcessError\<close> at the first such trial: the state is the one after the
  successful trials before it, with the progress line of the failing trial printed.
  No invocation is repeated and none follows; the file has not been opened and no
  line of the report has been printed.
\<close>

theorem process_failure_aborts:
  assumes "\<exists>p \<in> set procs. returncode p \<noteq> 0"
  shows "\<exists>st0 st.
           run_trials cls (length procs) 0 (takeWhile (\<lambda>p. returncode p = 0) procs) init_state
             = Done st0
           \<and> st = print [RunLine (length (takeWhile (\<lambda>p. returncode p = 0) procs) + 1)
                            (length procs)] st0
           \<and> harness cls procs = Raised CalledProcessError st
           \<and> links_file st = None
           \<and> (\<forall>l \<in> set (console st). \<not> report_line l)"
proof -
  let ?ok = "\<lambda>p. returncode p = 0"
  let ?pre = "takeWhile ?ok procs"
  from assms have "dropWhile ?ok procs \<noteq> []" by (simp add: dropWhile_eq_Nil_conv)
  then obtain p rest where dw: "dropWhile ?ok procs = p # rest" by (cases "dropWhile ?ok procs") auto
  then have bad: "returncode p \<noteq> 0" using hd_dropWhile[of ?ok procs] by auto
  have split: "procs = ?pre @ p # rest" using dw takeWhile_dropWhile_id[of ?ok procs] by simp
  have "\<forall>q \<in> set ?pre. returncode q = 0" by (auto dest: set_takeWhileD)
  from run_trials_fields[OF this, of cls "length procs" 0 init_state]
  obtain st0 where r: "run_trials cls (length procs) 0 ?pre init_state = Done st0"
    and c: "\<forall>l \<in> set (console st0). \<not> report_line l"
    and f: "links_file st0 = None"
    by (auto simp: init_state_def)
  have "run_trials cls (length procs) 0 (?pre @ p # rest) init_state
        = Raised CalledProcessError (print [RunLine (length ?pre + 1) (length procs)] st0)"
    using r bad by (simp add: run_trials_append trial_failed)
  then have "run_trials cls (length procs) 0 procs init_state
        = Raised CalledProcessError (print [RunLine (length ?pre + 1) (length procs)] st0)"
    using split by simp
  then have "harness cls procs
        = Raised CalledProcessError (print [RunLine (length ?pre + 1) (length procs)] st0)"
    by (simp add: harness_def and_then_def)
  moreover have "links_file (print [RunLine (length ?pre + 1) (length procs)] st0) = None"
    using f by (simp add: print_def)
  moreover have "\<forall>l \<in> set (console (print [RunLine (length ?pre + 1) (length procs)] st0)).
                   \<not> report_line l"
    using c by (simp add: print_def)
  ultimately show ?thesis using r by blast
qed

theorem process_failure_aborts_witness:
  "failed_run \<in> set runs_with_failure \<and> returncode failed_run \<noteq> 0
   \<and> (\<exists>st. harness ascii_classes runs_with_failure = Raised CalledProcessError st
          \<and> console st = [RunLine 1 4, WinnerLine ''Alice'', RunLine 2 4]
          \<and> links_file st = None)"
proof -
  have m: "failed_run \<in> set runs_with_failure" by (simp add: runs_with_failure_def)
  have b: "returncode failed_run \<noteq> 0" by (simp add: failed_run_def)
  from m b have h: "\<exists>p \<in> set runs_with_failure. returncode p \<noteq> 0" by blast
  have pre: "takeWhile (\<lambda>p. returncode p = 0) runs_with_failure = [run_of alice_output]"
    by (simp add: runs_with_failure_def run_of_def failed_run_def)
  have n: "length runs_with_failure = 4" by (simp add: runs_with_failure_def)
  have e: "console (state_of (run_trials ascii_classes 4 0 [run_of alice_output] init_state))
             = [RunLine 1 4, WinnerLine ''Alice'']"
    by code_simp
  from process_failure_aborts[OF h, of ascii_classes] obtain st0 st where
    r: "run_trials ascii_classes (length runs_with_failure) 0
          (takeWhile (\<lambda>p. returncode p = 0) runs_with_failure) init_state = Done st0"
    and s: "st = print [RunLine (length (takeWhile (\<lambda>p. returncode p = 0) runs_with_failure) + 1)
                          (length runs_with_failure)] st0"
    and a: "harness ascii_classes runs_with_failure = Raised CalledProcessError st"
    and f: "links_file st = None"
    by blast
  from r have "state_of (run_trials ascii_classes 4 0 [run_of alice_output] init_state) = st0"
    unfolding pre n by (simp only: state_of_def result.case)
  with e have c: "console st0 = [RunLine 1 4, WinnerLine ''Alice'']" by simp
  from s have "st = print [RunLine 2 4] st0"
    unfolding pre n by (simp add: eval_nat_numeral)
  with c have "console st = [RunLine 1 4, WinnerLine ''Alice'', RunLine 2 4]"
    by (simp add: print_def)
  with a f have "\<exists>st. harness ascii_classes runs_with_failure = Raised CalledProcessError st
          \<and> console st = [RunLine 1 4, WinnerLine ''Alice'', RunLine 2 4]
          \<and> links_file st = None"
    by blast
  with m b show ?thesis by blast
qed

subsection \<open>The summary\<close>

text \<open>
  C2. The warning about delayed moves and the list of the trials with more than 10
  of them are printed in the body of the loop over the winners, hence once for every
  distinct winner and not once per run of the script: twice for four runs won by
  Alice and Bob of which the first has 11 delayed moves, and never for four runs
  with 11 delayed moves each and no winner line.
\<close>

theorem warning_repeated_per_winner:
  "warnings_printed (harness ascii_classes runs_slow_two_winners) = 2
   \<and> warnings_printed (harness ascii_classes runs_slow_no_winner) = 0"
  by code_simp







subsection \<open>The win rate\<close>











subsection \<open>The file of game links\<close>

text \<open>
  C7 (as the code has it). When all processes succeed and no more links than winners
  have been recorded, the script ends normally and the file holds one line per
  recorded link, in order: the link at index \<open>i\<close> with the winner and the delayed-move
  count at index \<open>i\<close>, as \<open>Winner: <name>, delayed_moves: <count>, link: <link>\<close>.
\<close>

theorem links_written_when_enough_winners:
  assumes "\<forall>p \<in> set procs. returncode p = 0"
    and "length (List.map_filter (link_of cls) procs) \<le> length (List.map_filter (winner_of cls) procs)"
  shows "\<exists>st. harness cls procs = Done st
           \<and> game_links st = List.map_filter (link_of cls) procs
           \<and> winner_per_game st = List.map_filter (winner_of cls) procs
           \<and> delayed_moves_per_game st = map delayed_of procs
           \<and> links_file st
               = Some (map (\<lambda>(i, item). ''Winner: '' @ winner_per_game st ! i
                               @ '', delayed_moves: '' @ str_nat (delayed_moves_per_game st ! i)
                               @ '', link: '' @ item @ [CHR 0x0A])
                         (enumerate 0 (game_links st)))"
proof -
  from harness_all_succeed[OF assms(1), of cls] obtain st0 st where
    st: "st = print (BlankLine # ResultsLine #
            concat (map (rate_block (length procs) (delayed_moves_per_game st0)) (winners st0))) st0"
    and h: "harness cls procs = write_links st"
    and d: "delayed_moves_per_game st0 = map delayed_of procs"
    and g: "game_links st0 = List.map_filter (link_of cls) procs"
    and w: "winner_per_game st0 = List.map_filter (winner_of cls) procs"
    by blast
  have "length (game_links st) \<le> length (winner_per_game st)"
    using st g w assms(2) by (simp add: print_def)
  moreover have "length (game_links st) \<le> length (delayed_moves_per_game st)"
    using st g d length_map_filter_le[of "link_of cls" procs] by (simp add: print_def)
  ultimately have "write_links st = Done (print [LinksNotice]
       (st\<lparr>links_file := Some (map (paired_line (winner_per_game st) (delayed_moves_per_game st))
                                  (enumerate 0 (game_links st)))\<rparr>))"
    by (rule write_links_ok)
  with h st d g w show ?thesis
    by (simp add: print_def paired_line_def link_line_def)
qed

theorem links_written_when_enough_winners_witness:
  "list_all (\<lambda>p. returncode p = 0) four_runs
   \<and> length (List.map_filter (link_of ascii_classes) four_runs)
       \<le> length (List.map_filter (winner_of ascii_classes) four_runs)
   \<and> (\<exists>st. harness ascii_classes four_runs = Done st
          \<and> links_file st =
               Some [''Winner: Alice, delayed_moves: 0, link: http://x/1'' @ [CHR 0x0A],
                     ''Winner: Bob, delayed_moves: 0, link: http://x/2'' @ [CHR 0x0A],
                     ''Winner: Alice, delayed_moves: 0, link: http://x/1'' @ [CHR 0x0A],
                     ''Winner: Alice, delayed_moves: 0, link: http://x/1'' @ [CHR 0x0A]])"
proof -
  have h1: "\<forall>p \<in> set four_runs. returncode p = 0" by (simp add: four_runs_def run_of_def)
  have h2: "length (List.map_filter (link_of ascii_classes) four_runs)
       \<le> length (List.map_filter (winner_of ascii_classes) four_runs)"
    by (simp add: four_runs_eval)
  from links_written_when_enough_winners[OF h1 h2] obtain st where
    "harness ascii_classes four_runs = Done st"
    "links_file st =
               Some [''Winner: Alice, delayed_moves: 0, link: http://x/1'' @ [CHR 0x0A],
                     ''Winner: Bob, delayed_moves: 0, link: http://x/2'' @ [CHR 0x0A],
                     ''Winner: Alice, delayed_moves: 0, link: http://x/1'' @ [CHR 0x0A],
                     ''Winner: Alice, delayed_moves: 0, link: http://x/1'' @ [CHR 0x0A]]"
    by (auto simp: four_runs_eval str_nat_0)
  with h1 h2 show ?thesis by (auto simp: list_all_iff)
qed

text \<open>
  Four runs of which the second has a link and no winner: four links are recorded,
  three lines are written (the second and third with the winner of a later trial),
  and the script ends with \<open>IndexError\<close>.
\<close>

theorem links_file_incomplete:
  "harness ascii_classes runs_missing_winner =
     Raised IndexError
       \<lparr>winners = [(''Alice'', 2), (''Bob'', 1)],
        winner_per_game = [''Alice'', ''Bob'', ''Alice''],
        delayed_moves_per_game = [0, 0, 0, 0],
        game_links = [''http://x/1'', ''http://x/3'', ''http://x/2'', ''http://x/1''],
        console = [RunLine 1 4, WinnerLine ''Alice'', RunLine 2 4, RunLine 3 4,
                   WinnerLine ''Bob'', RunLine 4 4, WinnerLine ''Alice'', BlankLine,
                   ResultsLine, RateLine ''Alice'' 2 4, RateLine ''Bob'' 1 4],
        links_file =
          Some [''Winner: Alice, delayed_moves: 0, link: http://x/1'' @ [CHR 0x0A],
                ''Winner: Bob, delayed_moves: 0, link: http://x/3'' @ [CHR 0x0A],
                ''Winner: Alice, delayed_moves: 0, link: http://x/2'' @ [CHR 0x0A]]\<rparr>"
  by code_simp

text \<open>
  C10. When all processes succeed and more links than winners have been recorded, the
  loop that writes the file raises \<open>IndexError\<close> at the index that is the number of
  winners: the file holds the lines for the links before that index, and the closing
  notice is not printed.
\<close>

theorem links_exceed_winners_crash:
  assumes "\<forall>p \<in> set procs. returncode p = 0"
    and "length (List.map_filter (winner_of cls) procs) < length (List.map_filter (link_of cls) procs)"
  shows "\<exists>st. harness cls procs = Raised IndexError st
           \<and> game_links st = List.map_filter (link_of cls) procs
           \<and> winner_per_game st = List.map_filter (winner_of cls) procs
           \<and> delayed_moves_per_game st = map delayed_of procs
           \<and> links_file st
               = Some (map (paired_line (winner_per_game st) (delayed_moves_per_game st))
                         (take (length (winner_per_game st)) (enumerate 0 (game_links st))))
           \<and> LinksNotice \<notin> set (console st)"
proof -
  from harness_all_succeed[OF assms(1), of cls] obtain st0 st where
    st: "st = print (BlankLine # ResultsLine #
            concat (map (rate_block (length procs) (delayed_moves_per_game st0)) (winners st0))) st0"
    and h: "harness cls procs = write_links st"
    and d: "delayed_moves_per_game st0 = map delayed_of procs"
    and g: "game_links st0 = List.map_filter (link_of cls) procs"
    and w: "winner_per_game st0 = List.map_filter (winner_of cls) procs"
    and c: "\<forall>l \<in> set (console st0). \<not> report_line l"
    by blast
  have "length (winner_per_game st) < length (game_links st)"
    using st g w assms(2) by (simp add: print_def)
  moreover have "length (winner_per_game st) \<le> length (delayed_moves_per_game st)"
    using st w d length_map_filter_le[of "winner_of cls" procs] by (simp add: print_def)
  ultimately have "write_links st = Raised IndexError
       (st\<lparr>links_file := Some (map (paired_line (winner_per_game st) (delayed_moves_per_game st))
                                  (take (length (winner_per_game st)) (enumerate 0 (game_links st))))\<rparr>)"
    by (rule write_links_raises)
  moreover have "LinksNotice \<notin> set (console st)"
    using st c by (auto simp: print_def rate_block_def split: if_splits sum.splits)
  ultimately show ?thesis using h st d g w by (simp add: print_def)
qed

theorem links_exceed_winners_crash_witness:
  "list_all (\<lambda>p. returncode p = 0) runs_missing_winner
   \<and> length (List.map_filter (winner_of ascii_classes) runs_missing_winner)
       < length (List.map_filter (link_of ascii_classes) runs_missing_winner)
   \<and> (\<exists>st. harness ascii_classes runs_missing_winner = Raised IndexError st
          \<and> links_file st =
               Some [''Winner: Alice, delayed_moves: 0, link: http://x/1'' @ [CHR 0x0A],
                     ''Winner: Bob, delayed_moves: 0, link: http://x/3'' @ [CHR 0x0A],
                     ''Winner: Alice, delayed_moves: 0, link: http://x/2'' @ [CHR 0x0A]]
          \<and> LinksNotice \<notin> set (console st))"
proof -
  have h1: "\<forall>p \<in> set runs_missing_winner. returncode p = 0"
    by (simp add: runs_missing_winner_def run_of_def)
  have h2: "length (List.map_filter (winner_of ascii_classes) runs_missing_winner)
       < length (List.map_filter (link_of ascii_classes) runs_missing_winner)"
    by (simp add: runs_missing_winner_eval)
  from links_exceed_winners_crash[OF h1 h2] obtain st where
    "harness ascii_classes runs_missing_winner = Raised IndexError st"
    "links_file st =
               Some [''Winner: Alice, delayed_moves: 0, link: http://x/1'' @ [CHR 0x0A],
                     ''Winner: Bob, delayed_moves: 0, link: http://x/3'' @ [CHR 0x0A],
                     ''Winner: Alice, delayed_moves: 0, link: http://x/2'' @ [CHR 0x0A]]"
    "LinksNotice \<notin> set (console st)"
    by (auto simp: runs_missing_winner_eval str_nat_0 paired_line_def link_line_def)
  with h1 h2 show ?thesis by (auto simp: list_all_iff)
qed

end
